theory Spec2Isabelle
  imports Complex_Main
begin

section \<open>Values and library operations used by asqp.py\<close>

text \<open>
  The time-series functions of \<^verbatim>\<open>asqp.py\<close> work on NumPy arrays of float64. The model takes
  finite array entries as real numbers (exact arithmetic, no rounding, no overflow) and keeps
  the one non-finite value the code can produce from finite data: NaN, which
  \<^verbatim>\<open>ndarray.mean\<close> returns for an empty slice.
\<close>

datatype npfloat = Fin real | NaN

text \<open>
  The exceptions the NumPy calls of the source can raise, and the TypeError with which
  Python refuses a call whose arguments do not fit the header of the function. The source
  itself has no \<^verbatim>\<open>raise\<close> statement; a call returns \<open>Inr\<close> of its value or \<open>Inl\<close> of the
  exception.
\<close>

datatype error = LinAlgError | ValueError | TypeError

fun np_add :: "npfloat \<Rightarrow> npfloat \<Rightarrow> npfloat" where
  "np_add (Fin x) (Fin y) = Fin (x + y)"
| "np_add _ _ = NaN"

fun np_sub :: "npfloat \<Rightarrow> npfloat \<Rightarrow> npfloat" where
  "np_sub (Fin x) (Fin y) = Fin (x - y)"
| "np_sub _ _ = NaN"

fun np_mul :: "npfloat \<Rightarrow> npfloat \<Rightarrow> npfloat" where
  "np_mul (Fin x) (Fin y) = Fin (x * y)"
| "np_mul _ _ = NaN"

text \<open>The comparison \<^verbatim>\<open>x <= y\<close> of floats: false as soon as one side is NaN.\<close>

fun np_le :: "npfloat \<Rightarrow> npfloat \<Rightarrow> bool" where
  "np_le (Fin x) (Fin y) = (x \<le> y)"
| "np_le _ _ = False"

text \<open>\<^verbatim>\<open>a.sum()\<close>: the sum of the entries, 0.0 for an empty array.\<close>

definition np_sum :: "npfloat list \<Rightarrow> npfloat" where
  "np_sum xs = foldl np_add (Fin 0) xs"

text \<open>
  \<^verbatim>\<open>a.mean()\<close> of an array of finite numbers: the sum divided by the number of entries;
  for an empty array NumPy divides 0.0 by 0, warns, and returns NaN.
\<close>

definition np_mean :: "real list \<Rightarrow> npfloat" where
  "np_mean xs = (if xs = [] then NaN else Fin (sum_list xs / real (length xs)))"

text \<open>
  Python's adjustment of one bound of a slice of step 1 on a sequence of length \<open>n\<close>:
  a negative bound counts from the end, and the result is clipped to \<open>[0, n]\<close>.
\<close>

definition slice_index :: "nat \<Rightarrow> int \<Rightarrow> nat" where
  "slice_index n k = (if k < 0 then nat (max 0 (k + int n)) else min n (nat k))"

text \<open>\<^verbatim>\<open>xs[start:stop]\<close>: empty when the adjusted stop is not after the adjusted start.\<close>

definition py_slice :: "'a list \<Rightarrow> int \<Rightarrow> int \<Rightarrow> 'a list" where
  "py_slice xs start stop =
     (let s = slice_index (length xs) start;
          e = slice_index (length xs) stop
      in if e \<le> s then [] else take (e - s) (drop s xs))"

text \<open>
  \<^verbatim>\<open>xs[start:stop:step]\<close> for non-negative bounds and a positive step: the entries at
  \<open>start, start + step, ...\<close> below the clipped stop; Python's slice length is
  \<open>(stop - start - 1) div step + 1\<close> when \<open>start < stop\<close>, else 0.
\<close>

definition py_slice_step :: "'a list \<Rightarrow> nat \<Rightarrow> nat \<Rightarrow> nat \<Rightarrow> 'a list" where
  "py_slice_step xs start stop step =
     (let e = min stop (length xs);
          s = min start (length xs);
          len = (if s < e then (e - s - 1) div step + 1 else 0)
      in map (\<lambda>j. xs ! (s + j * step)) [0..<len])"

text \<open>
  \<^verbatim>\<open>np.argmax\<close> on a one-dimensional float array, as NumPy's loop runs: the first entry is
  the running maximum; a later entry replaces it unless it is \<open>\<le>\<close> the maximum; a NaN is
  maximal and stops the scan. An empty array raises ValueError.
\<close>

fun argmax_loop :: "npfloat \<Rightarrow> nat \<Rightarrow> nat \<Rightarrow> npfloat list \<Rightarrow> nat" where
  "argmax_loop mp max_ind i [] = max_ind"
| "argmax_loop mp max_ind i (x # xs) =
     (if np_le x mp then argmax_loop mp max_ind (Suc i) xs
      else if x = NaN then i
      else argmax_loop x i (Suc i) xs)"

definition np_argmax :: "npfloat list \<Rightarrow> error + nat" where
  "np_argmax xs =
     (case xs of
        [] \<Rightarrow> Inl ValueError
      | x # rest \<Rightarrow> if x = NaN then Inr 0 else Inr (argmax_loop x 0 1 rest))"

definition np_arange :: "nat \<Rightarrow> real list" where
  "np_arange n = map real [0..<n]"

definition np_ones :: "nat \<Rightarrow> real list" where
  "np_ones n = replicate n 1"

text \<open>
  \<^verbatim>\<open>np.vstack([x, ones]).T\<close>: the matrix whose row \<open>i\<close> is the pair of the entries
  \<open>i\<close> of \<open>x\<close> and of \<open>ones\<close>.
\<close>

definition vstack_T :: "real list \<Rightarrow> real list \<Rightarrow> (real \<times> real) list" where
  "vstack_T x ones = zip x ones"

fun finite_values :: "npfloat list \<Rightarrow> real list option" where
  "finite_values [] = Some []"
| "finite_values (NaN # xs) = None"
| "finite_values (Fin x # xs) = map_option ((#) x) (finite_values xs)"

text \<open>
  \<^verbatim>\<open>np.linalg.lstsq(A, y, rcond=None)[0]\<close> for a matrix \<open>A\<close> of two columns, in exact
  arithmetic. NumPy documents the result as the vector minimising the 2-norm of
  \<open>y - A x\<close>, the one of smallest 2-norm when several minimise it, and raises LinAlgError
  when \<open>A\<close> and \<open>y\<close> differ in their number of rows. With the entries of \<open>A\<^sup>T A\<close> and
  \<open>A\<^sup>T y\<close> written \<open>saa, sac, scc, say, scy\<close>: at full rank the solution of the normal
  equations; at rank 1 the pseudo-inverse \<open>A\<^sup>T / (saa + scc)\<close> applied to \<open>y\<close>; at rank 0
  (also with no rows) the zero vector. A NaN in \<open>y\<close> is taken to come out as NaN in both
  components; no property below depends on that case.
\<close>

definition np_linalg_lstsq ::
  "(real \<times> real) list \<Rightarrow> npfloat list \<Rightarrow> error + (npfloat \<times> npfloat)" where
  "np_linalg_lstsq A y =
     (if length A \<noteq> length y then Inl LinAlgError
      else case finite_values y of
        None \<Rightarrow> Inr (NaN, NaN)
      | Some ys \<Rightarrow>
          let saa = (\<Sum>(a, c)\<leftarrow>A. a * a);
              sac = (\<Sum>(a, c)\<leftarrow>A. a * c);
              scc = (\<Sum>(a, c)\<leftarrow>A. c * c);
              say = (\<Sum>((a, c), v)\<leftarrow>zip A ys. a * v);
              scy = (\<Sum>((a, c), v)\<leftarrow>zip A ys. c * v);
              det = saa * scc - sac * sac
          in if det \<noteq> 0
             then Inr (Fin ((scc * say - sac * scy) / det), Fin ((saa * scy - sac * say) / det))
             else if saa + scc \<noteq> 0
             then Inr (Fin (say / (saa + scc)), Fin (scy / (saa + scc)))
             else Inr (Fin 0, Fin 0))"

section \<open>The functions of asqp.py\<close>

text \<open>
  \<^verbatim>\<open>perform_least_squares(y)\<close>: builds \<open>x = arange(len(y))\<close> and the matrix with rows
  \<open>(x\<^sub>i, 1)\<close>, and returns the slope and intercept that \<^verbatim>\<open>lstsq\<close> gives.
\<close>

definition perform_least_squares :: "npfloat list \<Rightarrow> error + (npfloat \<times> npfloat)" where
  "perform_least_squares y =
     (let x = np_arange (length y);
          A = vstack_T x (np_ones (length y))
      in case np_linalg_lstsq A y of
           Inl e \<Rightarrow> Inl e
         | Inr (m, b) \<Rightarrow> Inr (m, b))"

text \<open>
  \<^verbatim>\<open>remove_irregularities(ts, width)\<close>: a float copy of \<open>ts\<close> whose entry \<open>i\<close> is overwritten
  by the mean of the slice \<open>ts[start:end]\<close> of the input (the copy is never read), with
  \<open>start = i - width if i - width > 0 else 0\<close> and
  \<open>end = i + width + 1 if i + width + 1 < num_rows else num_rows\<close>.
\<close>

definition remove_irregularities :: "real list \<Rightarrow> int \<Rightarrow> error + npfloat list" where
  "remove_irregularities ts width =
     (let num_rows = int (length ts)
      in Inr (map (\<lambda>i.
            let start = (if int i - width > 0 then int i - width else 0);
                stop = (if int i + width + 1 < num_rows then int i + width + 1 else num_rows)
            in np_mean (py_slice ts start stop)) [0..<length ts]))"

text \<open>
  \<^verbatim>\<open>remove_trend(ts, width)\<close>: fits a line to the smoothed series and subtracts \<open>m * i\<close> from
  entry \<open>i\<close> of a float copy of the input series; the intercept \<open>b\<close> is not used.
\<close>

definition remove_trend :: "real list \<Rightarrow> int \<Rightarrow> error + npfloat list" where
  "remove_trend ts width =
     (case remove_irregularities ts width of
        Inl e \<Rightarrow> Inl e
      | Inr smoothed_data \<Rightarrow>
          (case perform_least_squares smoothed_data of
             Inl e \<Rightarrow> Inl e
           | Inr (m, b) \<Rightarrow>
               Inr (map (\<lambda>i. np_sub (Fin (ts ! i)) (np_mul m (Fin (real i)))) [0..<length ts])))"

text \<open>
  \<^verbatim>\<open>is_seasonal(ts, width)\<close>: twelve buckets, bucket \<open>i\<close> the sum of the slice
  \<open>trendless_data[i:size:12]\<close>, and the \<^verbatim>\<open>argmax\<close> of the buckets. The function has no
  period parameter: 12 is a literal of the source.
\<close>

definition is_seasonal :: "real list \<Rightarrow> int \<Rightarrow> error + (npfloat list \<times> nat)" where
  "is_seasonal ts width =
     (case remove_trend ts width of
        Inl e \<Rightarrow> Inl e
      | Inr trendless_data \<Rightarrow>
          let months = map (\<lambda>i. np_sum (py_slice_step trendless_data i (length trendless_data) 12))
                         [0..<12]
          in (case np_argmax months of
                Inl e \<Rightarrow> Inl e
              | Inr index_of \<Rightarrow> Inr (months, index_of)))"


section \<open>The properties in the words of the specification\<close>

text \<open>
  The mean the specification asks for at index \<open>i\<close>: the sum of the entries of the series
  at the indices of the half-open range from \<open>max(0, i - width)\<close> to
  \<open>min(N, i + width + 1)\<close>, divided by the number of those indices.
\<close>

definition window_mean :: "real list \<Rightarrow> int \<Rightarrow> nat \<Rightarrow> real" where
  "window_mean series width i =
     (let lo = nat (max 0 (int i - width));
          hi = nat (min (int (length series)) (int i + width + 1))
      in (\<Sum>k = lo..<hi. series ! k) / real (hi - lo))"

text \<open>
  The sum of squared residuals of the line \<open>y = m * x + b\<close> against the values \<open>ys\<close> at
  \<open>x = 0, 1, ..., N - 1\<close>, and what it means for a line to be a least-squares fit: no
  other line has a smaller sum.
\<close>

definition rss :: "real list \<Rightarrow> real \<Rightarrow> real \<Rightarrow> real" where
  "rss ys m b = (\<Sum>i<length ys. (ys ! i - (m * real i + b))\<^sup>2)"

definition least_squares_line :: "real list \<Rightarrow> real \<Rightarrow> real \<Rightarrow> bool" where
  "least_squares_line ys m b \<longleftrightarrow> (\<forall>m' b'. rss ys m b \<le> rss ys m' b')"

text \<open>
  The closed-form solution of the normal equations for \<open>x = 0, 1, ..., N - 1\<close>, in sums
  over the indices.
\<close>

definition ols_det :: "nat \<Rightarrow> real" where
  "ols_det n = (\<Sum>i<n. real i * real i) * real n - (\<Sum>i<n. real i) * (\<Sum>i<n. real i)"

definition ols_slope :: "real list \<Rightarrow> real" where
  "ols_slope ys =
     (real (length ys) * (\<Sum>i<length ys. real i * ys ! i)
        - (\<Sum>i<length ys. real i) * (\<Sum>i<length ys. ys ! i)) / ols_det (length ys)"

definition ols_intercept :: "real list \<Rightarrow> real" where
  "ols_intercept ys =
     ((\<Sum>i<length ys. real i * real i) * (\<Sum>i<length ys. ys ! i)
        - (\<Sum>i<length ys. real i) * (\<Sum>i<length ys. real i * ys ! i)) / ols_det (length ys)"

text \<open>
  The bucket of phase \<open>p\<close>: the sum of the entries at the indices congruent to \<open>p\<close> modulo
  12 (0 when there is no such index). The dominant index: the smallest index that attains
  the maximum of the buckets.
\<close>

definition bucket_sum :: "real list \<Rightarrow> nat \<Rightarrow> real" where
  "bucket_sum xs p = (\<Sum>k | k < length xs \<and> k mod 12 = p. xs ! k)"

definition first_maximum :: "real list \<Rightarrow> nat \<Rightarrow> bool" where
  "first_maximum bs k \<longleftrightarrow>
     k < length bs \<and> (\<forall>j<length bs. bs ! j \<le> bs ! k) \<and> (\<forall>j<k. bs ! j < bs ! k)"

section \<open>The smoother\<close>

lemma sum_list_take_drop:
  fixes xs :: "real list"
  assumes "s \<le> e" "e \<le> length xs"
  shows "sum_list (take (e - s) (drop s xs)) = (\<Sum>k = s..<e. xs ! k)"
proof -
  have len: "length (take (e - s) (drop s xs)) = e - s"
    using assms by simp
  have "sum_list (take (e - s) (drop s xs)) = (\<Sum>j = 0..<e - s. take (e - s) (drop s xs) ! j)"
    by (simp only: sum_list_sum_nth len)
  also have "\<dots> = (\<Sum>j = 0..<e - s. xs ! (s + j))"
    using assms by (intro sum.cong) auto
  also have "\<dots> = (\<Sum>k = s..<e. xs ! k)"
    using assms sum.shift_bounds_nat_ivl [of "\<lambda>k. xs ! k" 0 s "e - s"] by (simp add: add.commute)
  finally show ?thesis .
qed

lemma smooth_entry:
  assumes w: "0 \<le> width" and i: "i < length ts"
  shows "np_mean (py_slice ts (if int i - width > 0 then int i - width else 0)
            (if int i + width + 1 < int (length ts) then int i + width + 1 else int (length ts)))
         = Fin (window_mean ts width i)"
proof -
  define lo where "lo = nat (max 0 (int i - width))"
  define hi where "hi = nat (min (int (length ts)) (int i + width + 1))"
  have lo_le: "lo \<le> i" using w by (simp add: lo_def)
  have hi_gt: "i < hi" using w i by (simp add: hi_def)
  have hi_le: "hi \<le> length ts" by (simp add: hi_def)
  have s: "slice_index (length ts) (if int i - width > 0 then int i - width else 0) = lo"
    using lo_le i by (auto simp: slice_index_def lo_def)
  have e: "slice_index (length ts)
             (if int i + width + 1 < int (length ts) then int i + width + 1 else int (length ts)) = hi"
    using w by (auto simp: slice_index_def hi_def)
  have sl: "py_slice ts (if int i - width > 0 then int i - width else 0)
            (if int i + width + 1 < int (length ts) then int i + width + 1 else int (length ts))
          = take (hi - lo) (drop lo ts)"
    unfolding py_slice_def s e using lo_le hi_gt by (simp add: Let_def)
  have ne: "take (hi - lo) (drop lo ts) \<noteq> []"
    using lo_le hi_gt hi_le by simp
  have len: "length (take (hi - lo) (drop lo ts)) = hi - lo"
    using hi_le by simp
  have sm: "sum_list (take (hi - lo) (drop lo ts)) = (\<Sum>k = lo..<hi. ts ! k)"
    using sum_list_take_drop [of lo hi ts] lo_le hi_gt hi_le by simp
  show ?thesis
    unfolding sl np_mean_def using ne
    by (simp only: if_False len sm window_mean_def Let_def lo_def [symmetric] hi_def [symmetric])
qed

lemma remove_irregularities_window:
  assumes "0 \<le> width"
  shows "remove_irregularities ts width =
         Inr (map (\<lambda>i. Fin (window_mean ts width i)) [0..<length ts])"
proof -
  have "map (\<lambda>i. np_mean (py_slice ts (if int i - width > 0 then int i - width else 0)
            (if int i + width + 1 < int (length ts) then int i + width + 1 else int (length ts))))
          [0..<length ts]
        = map (\<lambda>i. Fin (window_mean ts width i)) [0..<length ts]"
  proof (rule map_cong [OF refl])
    fix i assume "i \<in> set [0..<length ts]"
    then have "i < length ts" by simp
    then show "np_mean (py_slice ts (if int i - width > 0 then int i - width else 0)
            (if int i + width + 1 < int (length ts) then int i + width + 1 else int (length ts)))
         = Fin (window_mean ts width i)"
      by (rule smooth_entry [OF assms])
  qed
  then show ?thesis
    by (simp only: remove_irregularities_def Let_def)
qed

lemma remove_irregularities_length:
  "\<exists>out. remove_irregularities ts width = Inr out \<and> length out = length ts"
  by (simp add: remove_irregularities_def Let_def)

lemma window_mean_0: "i < length ts \<Longrightarrow> window_mean ts 0 i = ts ! i"
proof -
  assume i: "i < length ts"
  have lo: "nat (max 0 (int i - 0)) = i" by simp
  have hi: "nat (min (int (length ts)) (int i + 0 + 1)) = Suc i" using i by simp
  show ?thesis
    unfolding window_mean_def Let_def lo hi by simp
qed

lemma smoothed_finite:
  assumes "0 \<le> width"
  shows "remove_irregularities ts width = Inr (map Fin (map (window_mean ts width) [0..<length ts]))"
  using remove_irregularities_window [OF assms, of ts] by (simp add: o_def)

lemma window_mean_single:
  assumes "0 \<le> width"
  shows "window_mean [v] width 0 = v"
proof -
  have lo: "nat (max 0 (int 0 - width)) = 0" using assms by simp
  have hi: "nat (min (int (length [v])) (int 0 + width + 1)) = 1" using assms by simp
  show ?thesis unfolding window_mean_def Let_def lo hi by simp
qed

lemma smooth_minus_one: "remove_irregularities ts (- 1) = Inr (replicate (length ts) NaN)"
proof -
  have "map (\<lambda>i. np_mean (py_slice ts (if int i - (- 1) > 0 then int i - (- 1) else 0)
            (if int i + (- 1) + 1 < int (length ts) then int i + (- 1) + 1 else int (length ts))))
          [0..<length ts]
        = map (\<lambda>i. NaN) [0..<length ts]"
  proof (rule map_cong [OF refl])
    fix i assume "i \<in> set [0..<length ts]"
    then have i: "i < length ts" by simp
    have s: "slice_index (length ts) (int i + 1) = Suc i"
      using i by (simp add: slice_index_def nat_add_distrib)
    have e: "slice_index (length ts) (int i) = i"
      using i by (simp add: slice_index_def)
    have "py_slice ts (int i + 1) (int i) = []"
      unfolding py_slice_def s e Let_def by simp
    then show "np_mean (py_slice ts (if int i - (- 1) > 0 then int i - (- 1) else 0)
            (if int i + (- 1) + 1 < int (length ts) then int i + (- 1) + 1 else int (length ts))) = NaN"
      using i by (simp add: np_mean_def)
  qed
  then show ?thesis
    by (simp only: remove_irregularities_def Let_def map_replicate_const length_upt diff_zero)
qed

section \<open>The least-squares fit\<close>

lemma finite_values_Fin: "finite_values (map Fin ys) = Some ys"
  by (induction ys) simp_all

lemma design_rows:
  "vstack_T (np_arange n) (np_ones n) = map (\<lambda>i. (real i, 1)) [0..<n]"
  unfolding vstack_T_def np_arange_def np_ones_def
  by (rule nth_equalityI) simp_all

lemma zip_rows_values:
  "length ys = n \<Longrightarrow> zip (map h [0..<n]) ys = map (\<lambda>i. (h i, ys ! i)) [0..<n]"
  by (rule nth_equalityI) simp_all

lemma sum_list_upt: "sum_list (map f [0..<n]) = (\<Sum>i<n. (f i :: real))"
  by (simp add: interv_sum_list_conv_sum_set_nat atLeast0LessThan)

lemma lstsq_sums:
  assumes "length ys = n"
  shows "np_linalg_lstsq (map (\<lambda>i. (real i, 1)) [0..<n]) (map Fin ys) =
     (if ols_det n \<noteq> 0 then Inr (Fin (ols_slope ys), Fin (ols_intercept ys))
      else if (\<Sum>i<n. real i * real i) + real n \<noteq> 0
      then Inr (Fin ((\<Sum>i<n. real i * ys ! i) / ((\<Sum>i<n. real i * real i) + real n)),
                Fin ((\<Sum>i<n. ys ! i) / ((\<Sum>i<n. real i * real i) + real n)))
      else Inr (Fin 0, Fin 0))"
  unfolding np_linalg_lstsq_def finite_values_Fin
  using assms
  by (simp add: zip_rows_values [OF assms] o_def sum_list_upt Let_def ols_det_def ols_slope_def ols_intercept_def)

lemma sum_index: "2 * (\<Sum>i<n. real i) = real n * (real n - 1)"
  by (induction n) (simp_all add: algebra_simps)

lemma sum_index_sq: "6 * (\<Sum>i<n. real i * real i) = real n * (real n - 1) * (2 * real n - 1)"
  by (induction n) (simp_all add: algebra_simps)

lemma ols_det_closed: "12 * ols_det n = real n * real n * (real n - 1) * (real n + 1)"
proof -
  have "12 * ols_det n = 2 * (6 * (\<Sum>i<n. real i * real i)) * real n
          - 3 * ((2 * (\<Sum>i<n. real i)) * (2 * (\<Sum>i<n. real i)))"
    by (simp add: ols_det_def algebra_simps)
  also have "\<dots> = real n * real n * (real n - 1) * (real n + 1)"
    unfolding sum_index sum_index_sq by (simp add: algebra_simps)
  finally show ?thesis .
qed

lemma ols_det_pos: "2 \<le> n \<Longrightarrow> 0 < ols_det n"
proof -
  assume "2 \<le> n"
  then have "0 < real n * real n * (real n - 1) * (real n + 1)" by simp
  then show ?thesis using ols_det_closed [of n] by simp
qed

lemma perform_least_squares_ols:
  assumes "2 \<le> length ys"
  shows "perform_least_squares (map Fin ys) = Inr (Fin (ols_slope ys), Fin (ols_intercept ys))"
proof -
  have "ols_det (length ys) \<noteq> 0" using ols_det_pos [OF assms] by simp
  then show ?thesis
    unfolding perform_least_squares_def Let_def
    by (simp add: design_rows lstsq_sums [OF refl])
qed

lemma normal_eq_slope:
  assumes "2 \<le> length ys"
  shows "(\<Sum>i<length ys. real i * real i) * ols_slope ys + (\<Sum>i<length ys. real i) * ols_intercept ys
         = (\<Sum>i<length ys. real i * ys ! i)"
proof -
  have d: "ols_det (length ys) \<noteq> 0" using ols_det_pos [OF assms] by simp
  have "(\<Sum>i<length ys. real i * real i) * ols_slope ys + (\<Sum>i<length ys. real i) * ols_intercept ys
        = (ols_det (length ys) * (\<Sum>i<length ys. real i * ys ! i)) / ols_det (length ys)"
    unfolding ols_slope_def ols_intercept_def
    by (simp add: add_divide_distrib [symmetric] ols_det_def algebra_simps)
  then show ?thesis using d by simp
qed

lemma normal_eq_intercept:
  assumes "2 \<le> length ys"
  shows "(\<Sum>i<length ys. real i) * ols_slope ys + real (length ys) * ols_intercept ys
         = (\<Sum>i<length ys. ys ! i)"
proof -
  have d: "ols_det (length ys) \<noteq> 0" using ols_det_pos [OF assms] by simp
  have "(\<Sum>i<length ys. real i) * ols_slope ys + real (length ys) * ols_intercept ys
        = (ols_det (length ys) * (\<Sum>i<length ys. ys ! i)) / ols_det (length ys)"
    unfolding ols_slope_def ols_intercept_def
    by (simp add: add_divide_distrib [symmetric] ols_det_def algebra_simps)
  then show ?thesis using d by simp
qed

lemma rss_shift:
  assumes "2 \<le> length ys"
  shows "rss ys m' b' = rss ys (ols_slope ys) (ols_intercept ys)
           + (\<Sum>i<length ys. ((m' - ols_slope ys) * real i + (b' - ols_intercept ys))\<^sup>2)"
proof -
  define m where "m = ols_slope ys"
  define b where "b = ols_intercept ys"
  define n where "n = length ys"
  define dm where "dm = m' - m"
  define db where "db = b' - b"
  have ne1: "(\<Sum>i<n. real i * real i) * m + (\<Sum>i<n. real i) * b = (\<Sum>i<n. real i * ys ! i)"
    using normal_eq_slope [OF assms] by (simp add: m_def b_def n_def)
  have ne2: "(\<Sum>i<n. real i) * m + real n * b = (\<Sum>i<n. ys ! i)"
    using normal_eq_intercept [OF assms] by (simp add: m_def b_def n_def)
  have r1: "(\<Sum>i<n. (ys ! i - (m * real i + b)) * real i) = 0"
  proof -
    have "(\<Sum>i<n. (ys ! i - (m * real i + b)) * real i)
          = (\<Sum>i<n. real i * ys ! i - (m * (real i * real i) + b * real i))"
      by (intro sum.cong refl) (simp add: algebra_simps)
    also have "\<dots> = (\<Sum>i<n. real i * ys ! i) - (m * (\<Sum>i<n. real i * real i) + b * (\<Sum>i<n. real i))"
      by (simp add: sum_subtractf sum.distrib sum_distrib_left)
    also have "\<dots> = 0" using ne1 by (simp add: algebra_simps)
    finally show ?thesis .
  qed
  have r2: "(\<Sum>i<n. (ys ! i - (m * real i + b))) = 0"
  proof -
    have "(\<Sum>i<n. (ys ! i - (m * real i + b)))
          = (\<Sum>i<n. ys ! i) - (m * (\<Sum>i<n. real i) + real n * b)"
      by (simp add: sum_subtractf sum.distrib sum_distrib_left)
    also have "\<dots> = 0" using ne2 by (simp add: algebra_simps)
    finally show ?thesis .
  qed
  have cross: "(\<Sum>i<n. (ys ! i - (m * real i + b)) * (dm * real i + db)) = 0"
  proof -
    have "(\<Sum>i<n. (ys ! i - (m * real i + b)) * (dm * real i + db))
          = (\<Sum>i<n. dm * ((ys ! i - (m * real i + b)) * real i) + db * (ys ! i - (m * real i + b)))"
      by (intro sum.cong refl) (simp add: algebra_simps)
    also have "\<dots> = dm * (\<Sum>i<n. (ys ! i - (m * real i + b)) * real i)
                      + db * (\<Sum>i<n. (ys ! i - (m * real i + b)))"
      by (simp only: sum.distrib sum_distrib_left)
    also have "\<dots> = 0" by (simp add: r1 r2)
    finally show ?thesis .
  qed
  have "rss ys m' b' = (\<Sum>i<n. ((ys ! i - (m * real i + b)) - (dm * real i + db))\<^sup>2)"
    unfolding rss_def n_def dm_def db_def
    by (intro sum.cong refl) (simp add: algebra_simps)
  also have "\<dots> = (\<Sum>i<n. (ys ! i - (m * real i + b))\<^sup>2 + (dm * real i + db)\<^sup>2
                        - 2 * ((ys ! i - (m * real i + b)) * (dm * real i + db)))"
    by (intro sum.cong refl) (simp add: power2_diff)
  also have "\<dots> = (\<Sum>i<n. (ys ! i - (m * real i + b))\<^sup>2) + (\<Sum>i<n. (dm * real i + db)\<^sup>2)
                      - 2 * (\<Sum>i<n. (ys ! i - (m * real i + b)) * (dm * real i + db))"
    by (simp only: sum_subtractf sum.distrib sum_distrib_left)
  also have "\<dots> = rss ys m b + (\<Sum>i<n. (dm * real i + db)\<^sup>2)"
    using cross by (simp add: rss_def n_def)
  finally show ?thesis
    by (simp only: m_def b_def n_def dm_def db_def)
qed

lemma ols_minimises:
  assumes "2 \<le> length ys"
  shows "rss ys (ols_slope ys) (ols_intercept ys) \<le> rss ys m' b'"
proof -
  have "0 \<le> (\<Sum>i<length ys. ((m' - ols_slope ys) * real i + (b' - ols_intercept ys))\<^sup>2)"
    by (rule sum_nonneg) simp
  then show ?thesis using rss_shift [OF assms, of m' b'] by simp
qed

lemma ols_unique:
  assumes n: "2 \<le> length ys"
    and le: "rss ys m' b' \<le> rss ys (ols_slope ys) (ols_intercept ys)"
  shows "m' = ols_slope ys \<and> b' = ols_intercept ys"
proof -
  let ?g = "\<lambda>i. ((m' - ols_slope ys) * real i + (b' - ols_intercept ys))\<^sup>2"
  have nonneg: "0 \<le> (\<Sum>i<length ys. ?g i)" by (rule sum_nonneg) simp
  have "(\<Sum>i<length ys. ?g i) \<le> 0"
    using rss_shift [OF n, of m' b'] le by simp
  with nonneg have z: "(\<Sum>i<length ys. ?g i) = 0" by simp
  have all: "?g i = 0" if "i < length ys" for i
  proof -
    have "\<forall>i\<in>{..<length ys}. ?g i = 0"
      using z by (subst (asm) sum_nonneg_eq_0_iff) simp_all
    with that show ?thesis by blast
  qed
  have i0: "0 < length ys" and i1: "1 < length ys" using n by linarith+
  have "?g 0 = 0" by (rule all [OF i0])
  then have b: "b' = ols_intercept ys" by simp
  have "?g 1 = 0" by (rule all [OF i1])
  then have "m' = ols_slope ys" using b by simp
  with b show ?thesis by simp
qed

lemma perform_least_squares_empty: "perform_least_squares [] = Inr (Fin 0, Fin 0)"
  by (simp add: perform_least_squares_def np_linalg_lstsq_def np_arange_def np_ones_def vstack_T_def)

lemma perform_least_squares_single: "perform_least_squares [Fin v] = Inr (Fin 0, Fin v)"
  by (simp add: perform_least_squares_def np_linalg_lstsq_def np_arange_def np_ones_def vstack_T_def)

lemma perform_least_squares_finite:
  "\<exists>m b. perform_least_squares (map Fin ys) = Inr (Fin m, Fin b)"
  unfolding perform_least_squares_def Let_def
  by (simp add: design_rows lstsq_sums [OF refl])

lemma ols_line:
  assumes "2 \<le> n"
  shows "ols_slope (map (\<lambda>i. b + m * real i) [0..<n]) = m
       \<and> ols_intercept (map (\<lambda>i. b + m * real i) [0..<n]) = b"
proof -
  let ?ys = "map (\<lambda>i. b + m * real i) [0..<n]"
  have len: "length ?ys = n" by simp
  have n2: "2 \<le> length ?ys" using assms by simp
  have "rss ?ys m b = 0"
    unfolding rss_def len by simp
  moreover have "0 \<le> rss ?ys (ols_slope ?ys) (ols_intercept ?ys)"
    unfolding rss_def by (rule sum_nonneg) simp
  ultimately have "rss ?ys m b \<le> rss ?ys (ols_slope ?ys) (ols_intercept ?ys)" by simp
  then show ?thesis using ols_unique [OF n2, of m b] by simp
qed

text \<open>
  With one value the line is not determined: every line through the point has no residual.
  The fit \<open>(0, v)\<close> of the model is the one of smallest norm among them, as \<^verbatim>\<open>lstsq\<close>
  documents.
\<close>

lemma single_value_fit_minimum_norm:
  "least_squares_line [v] 0 v \<and> (least_squares_line [v] m b \<longrightarrow> 0\<^sup>2 + v\<^sup>2 \<le> m\<^sup>2 + b\<^sup>2)"
proof -
  have r: "rss [v] m' b' = (v - b')\<^sup>2" for m' b'
    by (simp add: rss_def)
  have best: "least_squares_line [v] 0 v"
    by (simp add: least_squares_line_def r)
  have "0\<^sup>2 + v\<^sup>2 \<le> m\<^sup>2 + b\<^sup>2" if "least_squares_line [v] m b"
  proof -
    have "rss [v] m b \<le> rss [v] 0 v"
      using that by (simp only: least_squares_line_def)
    then have "(v - b)\<^sup>2 \<le> 0" by (simp add: r)
    then have "b = v" by simp
    then show ?thesis by simp
  qed
  with best show ?thesis by blast
qed

section \<open>Detrending and seasonal buckets\<close>

lemma remove_trend_value:
  assumes w: "0 \<le> width"
    and fit: "perform_least_squares (map Fin (map (window_mean ts width) [0..<length ts]))
              = Inr (Fin m, Fin b)"
  shows "remove_trend ts width = Inr (map (\<lambda>i. Fin (ts ! i - m * real i)) [0..<length ts])"
proof -
  have sm: "remove_irregularities ts width = Inr (map Fin (map (window_mean ts width) [0..<length ts]))"
    using remove_irregularities_window [OF w, of ts] by (simp add: o_def)
  show ?thesis
    unfolding remove_trend_def sm using fit by simp
qed

lemma foldl_np_add_Fin: "foldl np_add (Fin a) (map Fin xs) = Fin (a + sum_list xs)"
  by (induction xs arbitrary: a) (simp_all add: add.assoc)

lemma np_sum_Fin: "np_sum (map Fin xs) = Fin (sum_list xs)"
  by (simp add: np_sum_def foldl_np_add_Fin)

lemma stride_count:
  assumes "p < n"
  shows "j < (n - p - 1) div 12 + 1 \<longleftrightarrow> p + j * 12 < (n::nat)"
  using assms by (simp add: less_Suc_eq_le less_eq_div_iff_mult_less_eq) linarith

lemma slice_step_Fin:
  "py_slice_step (map Fin d) p (length (map Fin d)) 12
   = map Fin (map (\<lambda>j. d ! (p + j * 12))
        [0..<(if p < length d then (length d - p - 1) div 12 + 1 else 0)])"
proof (cases "p < length d")
  case True
  then have s: "min p (length d) = p" by simp
  show ?thesis
    unfolding py_slice_step_def Let_def
    using True stride_count [OF True] by (simp add: s)
next
  case False
  then show ?thesis
    unfolding py_slice_step_def Let_def by simp
qed

lemma stride_sum:
  assumes p: "p < 12"
  shows "sum_list (map (\<lambda>j. d ! (p + j * 12))
            [0..<(if p < length d then (length d - p - 1) div 12 + 1 else 0)])
         = bucket_sum d p"
proof (cases "p < length d")
  case True
  let ?len = "(length d - p - 1) div 12 + 1"
  have "sum_list (map (\<lambda>j. d ! (p + j * 12)) [0..<?len]) = (\<Sum>j<?len. d ! (p + j * 12))"
    by (rule sum_list_upt)
  also have "\<dots> = (\<Sum>k | k < length d \<and> k mod 12 = p. d ! k)"
  proof (rule sum.reindex_bij_witness [where i = "\<lambda>k. k div 12" and j = "\<lambda>j. p + j * 12"])
    fix j assume "j \<in> {..<?len}"
    then have "p + j * 12 < length d" using stride_count [OF True, of j] by simp
    moreover have "(p + j * 12) mod 12 = p" using p by simp
    ultimately show "p + j * 12 \<in> {k. k < length d \<and> k mod 12 = p}" by simp
    show "(p + j * 12) div 12 = j" using p by simp
    show "d ! (p + j * 12) = d ! (p + j * 12)" by (rule refl)
  next
    fix k assume "k \<in> {k. k < length d \<and> k mod 12 = p}"
    then have k: "k < length d" "k mod 12 = p" by simp_all
    show eq: "p + k div 12 * 12 = k" using k(2) by (metis add.commute div_mult_mod_eq)
    then have "p + k div 12 * 12 < length d" using k(1) by simp
    then show "k div 12 \<in> {..<?len}" using stride_count [OF True, of "k div 12"] by simp
  qed
  finally show ?thesis using True by (simp add: bucket_sum_def)
next
  case False
  have e: "{k. k < length d \<and> k mod 12 = p} = {}"
  proof -
    have "k mod 12 \<noteq> p" if "k < length d" for k
      using that False mod_less_eq_dividend [of k 12] by linarith
    then show ?thesis by blast
  qed
  show ?thesis unfolding bucket_sum_def e using False by simp
qed

lemma months_Fin:
  "map (\<lambda>i. np_sum (py_slice_step (map Fin d) i (length (map Fin d)) 12)) [0..<12]
   = map Fin (map (bucket_sum d) [0..<12])"
proof -
  have "map (\<lambda>i. np_sum (py_slice_step (map Fin d) i (length (map Fin d)) 12)) [0..<12]
        = map (\<lambda>i. Fin (bucket_sum d i)) [0..<12]"
  proof (rule map_cong [OF refl])
    fix i assume "i \<in> set [0..<12]"
    then have i: "i < 12" by simp
    show "np_sum (py_slice_step (map Fin d) i (length (map Fin d)) 12) = Fin (bucket_sum d i)"
      by (simp only: slice_step_Fin np_sum_Fin stride_sum [OF i])
  qed
  then show ?thesis by (simp add: o_def)
qed

lemma bucket_total: "(\<Sum>p<12. bucket_sum d p) = sum_list d"
proof -
  have "(\<Sum>p\<in>{..<12}. \<Sum>k | k \<in> {..<length d} \<and> k mod 12 = p. d ! k) = (\<Sum>k\<in>{..<length d}. d ! k)"
    by (rule sum.group) auto
  moreover have "sum_list d = (\<Sum>k<length d. d ! k)"
    by (simp add: sum_list_sum_nth atLeast0LessThan)
  ultimately show ?thesis by (simp add: bucket_sum_def)
qed

lemma argmax_loop_spec:
  "(argmax_loop (Fin mp) mi i (map Fin xs) = mi \<and> (\<forall>x\<in>set xs. x \<le> mp))
   \<or> (\<exists>j<length xs. argmax_loop (Fin mp) mi i (map Fin xs) = i + j \<and> mp < xs ! j
        \<and> (\<forall>l<length xs. xs ! l \<le> xs ! j) \<and> (\<forall>l<j. xs ! l < xs ! j))"
proof (induction xs arbitrary: mp mi i)
  case Nil
  then show ?case by simp
next
  case (Cons x xs)
  show ?case
  proof (cases "x \<le> mp")
    case True
    have step: "argmax_loop (Fin mp) mi i (map Fin (x # xs)) = argmax_loop (Fin mp) mi (Suc i) (map Fin xs)"
      using True by simp
    from Cons.IH [of mp mi "Suc i"] show ?thesis
    proof
      assume "argmax_loop (Fin mp) mi (Suc i) (map Fin xs) = mi \<and> (\<forall>x\<in>set xs. x \<le> mp)"
      then show ?thesis using True step by simp
    next
      assume "\<exists>j<length xs. argmax_loop (Fin mp) mi (Suc i) (map Fin xs) = Suc i + j \<and> mp < xs ! j
        \<and> (\<forall>l<length xs. xs ! l \<le> xs ! j) \<and> (\<forall>l<j. xs ! l < xs ! j)"
      then obtain j where j: "j < length xs"
        "argmax_loop (Fin mp) mi (Suc i) (map Fin xs) = Suc i + j" "mp < xs ! j"
        "\<forall>l<length xs. xs ! l \<le> xs ! j" "\<forall>l<j. xs ! l < xs ! j" by blast
      have "Suc j < length (x # xs)" using j(1) by simp
      moreover have "argmax_loop (Fin mp) mi i (map Fin (x # xs)) = i + Suc j"
        using step j(2) by simp
      moreover have "mp < (x # xs) ! Suc j" using j(3) by simp
      moreover have "\<forall>l<length (x # xs). (x # xs) ! l \<le> (x # xs) ! Suc j"
        using j(3,4) True by (auto simp: nth_Cons split: nat.splits)
      moreover have "\<forall>l<Suc j. (x # xs) ! l < (x # xs) ! Suc j"
        using j(3,5) True by (auto simp: nth_Cons split: nat.splits)
      ultimately show ?thesis by blast
    qed
  next
    case False
    have step: "argmax_loop (Fin mp) mi i (map Fin (x # xs)) = argmax_loop (Fin x) i (Suc i) (map Fin xs)"
      using False by simp
    from Cons.IH [of x i "Suc i"] show ?thesis
    proof
      assume a: "argmax_loop (Fin x) i (Suc i) (map Fin xs) = i \<and> (\<forall>y\<in>set xs. y \<le> x)"
      have "0 < length (x # xs)" by simp
      moreover have "argmax_loop (Fin mp) mi i (map Fin (x # xs)) = i + 0" using a step by simp
      moreover have "mp < (x # xs) ! 0" using False by simp
      moreover have "\<forall>l<length (x # xs). (x # xs) ! l \<le> (x # xs) ! 0"
        using a by (auto simp: nth_Cons split: nat.splits)
      moreover have "\<forall>l<(0::nat). (x # xs) ! l < (x # xs) ! 0" by simp
      ultimately show ?thesis by blast
    next
      assume "\<exists>j<length xs. argmax_loop (Fin x) i (Suc i) (map Fin xs) = Suc i + j \<and> x < xs ! j
        \<and> (\<forall>l<length xs. xs ! l \<le> xs ! j) \<and> (\<forall>l<j. xs ! l < xs ! j)"
      then obtain j where j: "j < length xs"
        "argmax_loop (Fin x) i (Suc i) (map Fin xs) = Suc i + j" "x < xs ! j"
        "\<forall>l<length xs. xs ! l \<le> xs ! j" "\<forall>l<j. xs ! l < xs ! j" by blast
      have "Suc j < length (x # xs)" using j(1) by simp
      moreover have "argmax_loop (Fin mp) mi i (map Fin (x # xs)) = i + Suc j"
        using step j(2) by simp
      moreover have "mp < (x # xs) ! Suc j" using j(3) False by simp
      moreover have "\<forall>l<length (x # xs). (x # xs) ! l \<le> (x # xs) ! Suc j"
        using j(3,4) by (auto simp: nth_Cons split: nat.splits)
      moreover have "\<forall>l<Suc j. (x # xs) ! l < (x # xs) ! Suc j"
        using j(3,5) by (auto simp: nth_Cons split: nat.splits)
      ultimately show ?thesis by blast
    qed
  qed
qed

lemma np_argmax_first_maximum:
  assumes "bs \<noteq> []"
  shows "\<exists>k. np_argmax (map Fin bs) = Inr k \<and> first_maximum bs k"
proof -
  obtain x xs where bs: "bs = x # xs" using assms by (cases bs) auto
  have am: "np_argmax (map Fin bs) = Inr (argmax_loop (Fin x) 0 1 (map Fin xs))"
    by (simp add: np_argmax_def bs)
  from argmax_loop_spec [of x 0 1 xs] show ?thesis
  proof
    assume a: "argmax_loop (Fin x) 0 1 (map Fin xs) = 0 \<and> (\<forall>y\<in>set xs. y \<le> x)"
    have "first_maximum bs 0"
      unfolding first_maximum_def bs using a by (auto simp: nth_Cons split: nat.splits)
    then show ?thesis using am a by simp
  next
    assume "\<exists>j<length xs. argmax_loop (Fin x) 0 1 (map Fin xs) = 1 + j \<and> x < xs ! j
        \<and> (\<forall>l<length xs. xs ! l \<le> xs ! j) \<and> (\<forall>l<j. xs ! l < xs ! j)"
    then obtain j where j: "j < length xs" "argmax_loop (Fin x) 0 1 (map Fin xs) = 1 + j"
      "x < xs ! j" "\<forall>l<length xs. xs ! l \<le> xs ! j" "\<forall>l<j. xs ! l < xs ! j" by blast
    have "first_maximum bs (Suc j)"
      unfolding first_maximum_def bs using j(1,3,4,5) by (auto simp: nth_Cons split: nat.splits)
    then show ?thesis using am j(2) by simp
  qed
qed

lemma is_seasonal_value:
  assumes "remove_trend ts width = Inr (map Fin d)"
  shows "\<exists>k. is_seasonal ts width = Inr (map Fin (map (bucket_sum d) [0..<12]), k)
            \<and> first_maximum (map (bucket_sum d) [0..<12]) k"
proof -
  have ne: "map (bucket_sum d) [0..<12] \<noteq> []" by simp
  obtain k where k: "np_argmax (map Fin (map (bucket_sum d) [0..<12])) = Inr k"
    "first_maximum (map (bucket_sum d) [0..<12]) k"
    using np_argmax_first_maximum [OF ne] by blast
  have "is_seasonal ts width = Inr (map Fin (map (bucket_sum d) [0..<12]), k)"
    unfolding is_seasonal_def assms Let_def
    by (simp only: sum.case months_Fin k(1))
  then show ?thesis using k(2) by blast
qed

lemma remove_trend_finite:
  assumes "0 \<le> width"
  shows "\<exists>m. remove_trend ts width = Inr (map Fin (map (\<lambda>i. ts ! i - m * real i) [0..<length ts]))"
proof -
  obtain m b where "perform_least_squares (map Fin (map (window_mean ts width) [0..<length ts]))
      = Inr (Fin m, Fin b)"
    using perform_least_squares_finite by blast
  from remove_trend_value [OF assms this] show ?thesis by (auto simp: o_def)
qed

lemma remove_trend_short:
  assumes "length ts < 2" and "0 \<le> width"
  shows "remove_trend ts width = Inr (map Fin ts)"
proof (cases ts)
  case Nil
  have "perform_least_squares (map Fin (map (window_mean [] width) [0..<length ([]::real list)]))
        = Inr (Fin 0, Fin 0)"
    by (simp add: perform_least_squares_empty)
  from remove_trend_value [OF assms(2) this] show ?thesis using Nil by simp
next
  case (Cons v vs)
  then have ts: "ts = [v]" using assms(1) by simp
  have "perform_least_squares (map Fin (map (window_mean [v] width) [0..<length [v]]))
        = Inr (Fin 0, Fin v)"
    by (simp add: perform_least_squares_single window_mean_single [OF assms(2)])
  from remove_trend_value [OF assms(2) this] show ?thesis using ts by simp
qed

lemma bucket_sum_empty: "length d \<le> p \<Longrightarrow> bucket_sum d p = 0"
proof -
  assume le: "length d \<le> p"
  have e: "{k. k < length d \<and> k mod 12 = p} = {}"
  proof -
    have "k mod 12 \<noteq> p" if "k < length d" for k
      using that le mod_less_eq_dividend [of k 12] by linarith
    then show ?thesis by blast
  qed
  show ?thesis unfolding bucket_sum_def e by simp
qed

section \<open>The claims\<close>

text \<open>
  C1. For a width \<open>\<ge> 0\<close> the smoother returns, at every index \<open>i\<close> of the series, the
  arithmetic mean of the entries at the indices from \<open>max(0, i - width)\<close> up to, not
  including, \<open>min(N, i + width + 1)\<close>; the series 1, 2, 3, 4, 5 smoothed at width 1 is
  1.5, 2, 3, 4, 4.5.
\<close>

theorem smooth_is_clipped_window_mean:
  assumes "0 \<le> width"
  shows "remove_irregularities ts width =
           Inr (map (\<lambda>i. Fin (window_mean ts width i)) [0..<length ts])
         \<and> remove_irregularities [1, 2, 3, 4, 5] 1 =
           Inr [Fin (3 / 2), Fin 2, Fin 3, Fin 4, Fin (9 / 2)]"
proof
  show "remove_irregularities ts width =
          Inr (map (\<lambda>i. Fin (window_mean ts width i)) [0..<length ts])"
    by (rule remove_irregularities_window [OF assms])
  show "remove_irregularities [1, 2, 3, 4, 5] 1 =
          Inr [Fin (3 / 2), Fin 2, Fin 3, Fin 4, Fin (9 / 2)]"
    by code_simp
qed

theorem smooth_is_clipped_window_mean_witness:
  "(0::int) \<le> 1
   \<and> remove_irregularities [4, 8, 6] 1 =
       Inr (map (\<lambda>i. Fin (window_mean [4, 8, 6] 1 i)) [0..<length [4, 8, 6 :: real]])
   \<and> remove_irregularities [4, 8, 6] 1 = Inr [Fin 6, Fin 6, Fin 7]"
proof -
  have h: "(0::int) \<le> 1" by simp
  have e: "remove_irregularities [4, 8, 6] 1 = Inr [Fin 6, Fin 6, Fin 7]" by code_simp
  show ?thesis
    using h e smooth_is_clipped_window_mean [OF h, of "[4, 8, 6]"] by simp
qed

text \<open>
  C2. For a series of at least two entries and a width \<open>\<ge> 0\<close>, entry \<open>i\<close> of the detrended
  series is \<open>series[i] - m * i\<close>: the subtraction is made on the input series, \<open>m\<close> is the
  slope the fit returns for the smoothed series, that fit is a least-squares line of the
  smoothed series and every least-squares line of it has the slope \<open>m\<close>; the intercept
  takes no part.
\<close>

theorem detrend_subtracts_fitted_slope:
  assumes "2 \<le> length ts" and "0 \<le> width"
  shows "\<exists>sm m b.
           remove_irregularities ts width = Inr (map Fin sm)
         \<and> perform_least_squares (map Fin sm) = Inr (Fin m, Fin b)
         \<and> least_squares_line sm m b
         \<and> (\<forall>m' b'. least_squares_line sm m' b' \<longrightarrow> m' = m)
         \<and> remove_trend ts width = Inr (map (\<lambda>i. Fin (ts ! i - m * real i)) [0..<length ts])"
proof -
  let ?sm = "map (window_mean ts width) [0..<length ts]"
  have len: "2 \<le> length ?sm" using assms(1) by simp
  have fit: "perform_least_squares (map Fin ?sm) = Inr (Fin (ols_slope ?sm), Fin (ols_intercept ?sm))"
    by (rule perform_least_squares_ols [OF len])
  have best: "least_squares_line ?sm (ols_slope ?sm) (ols_intercept ?sm)"
    unfolding least_squares_line_def using ols_minimises [OF len] by blast
  have only: "\<forall>m' b'. least_squares_line ?sm m' b' \<longrightarrow> m' = ols_slope ?sm"
    unfolding least_squares_line_def using ols_unique [OF len] by blast
  show ?thesis
    using smoothed_finite [OF assms(2), of ts] fit best only
      remove_trend_value [OF assms(2) fit] by blast
qed

theorem detrend_subtracts_fitted_slope_witness:
  "2 \<le> length [1, 3, 5 :: real] \<and> (0::int) \<le> 0
   \<and> (\<exists>sm m b.
           remove_irregularities [1, 3, 5] 0 = Inr (map Fin sm)
         \<and> perform_least_squares (map Fin sm) = Inr (Fin m, Fin b)
         \<and> least_squares_line sm m b
         \<and> (\<forall>m' b'. least_squares_line sm m' b' \<longrightarrow> m' = m)
         \<and> remove_trend [1, 3, 5] 0 = Inr (map (\<lambda>i. Fin ([1, 3, 5] ! i - m * real i)) [0..<length [1, 3, 5 :: real]]))
   \<and> remove_trend [1, 3, 5] 0 = Inr [Fin 1, Fin 1, Fin 1]"
proof -
  have h1: "2 \<le> length [1, 3, 5 :: real]" by simp
  have h2: "(0::int) \<le> 0" by simp
  have e: "remove_trend [1, 3, 5] 0 = Inr [Fin 1, Fin 1, Fin 1]" by code_simp
  show ?thesis
    using h1 h2 e detrend_subtracts_fitted_slope [OF h1 h2] by blast
qed

text \<open>
  C3. For a series of at least two entries and a width \<open>\<ge> 0\<close>, the seasonal aggregator
  returns twelve buckets, bucket \<open>p\<close> the sum of the detrended entries at the indices
  congruent to \<open>p\<close> modulo 12 (0 for a phase beyond the end of the series), and the
  smallest index at which the buckets attain their maximum; on the buckets 5, 7, 7, 3
  the \<^verbatim>\<open>argmax\<close> is 1.
\<close>

theorem seasonal_buckets_and_first_maximum:
  assumes "2 \<le> length ts" and "0 \<le> width"
  shows "(\<exists>d bs k.
            remove_trend ts width = Inr (map Fin d)
          \<and> length d = length ts
          \<and> is_seasonal ts width = Inr (map Fin bs, k)
          \<and> length bs = 12
          \<and> (\<forall>p<12. bs ! p = bucket_sum d p)
          \<and> (\<forall>p<12. length ts \<le> p \<longrightarrow> bs ! p = 0)
          \<and> first_maximum bs k)
         \<and> np_argmax [Fin 5, Fin 7, Fin 7, Fin 3] = Inr 1"
proof
  obtain m where d: "remove_trend ts width
      = Inr (map Fin (map (\<lambda>i. ts ! i - m * real i) [0..<length ts]))"
    using remove_trend_finite [OF assms(2)] by blast
  let ?d = "map (\<lambda>i. ts ! i - m * real i) [0..<length ts]"
  let ?bs = "map (bucket_sum ?d) [0..<12]"
  obtain k where k: "is_seasonal ts width = Inr (map Fin ?bs, k)" "first_maximum ?bs k"
    using is_seasonal_value [OF d] by blast
  have lend: "length ?d = length ts" by simp
  have lenb: "length ?bs = 12" by simp
  have nth: "\<forall>p<12. ?bs ! p = bucket_sum ?d p" by simp
  have emp: "\<forall>p<12. length ts \<le> p \<longrightarrow> ?bs ! p = 0"
    using bucket_sum_empty [of ?d] by simp
  show "\<exists>d bs k.
            remove_trend ts width = Inr (map Fin d)
          \<and> length d = length ts
          \<and> is_seasonal ts width = Inr (map Fin bs, k)
          \<and> length bs = 12
          \<and> (\<forall>p<12. bs ! p = bucket_sum d p)
          \<and> (\<forall>p<12. length ts \<le> p \<longrightarrow> bs ! p = 0)
          \<and> first_maximum bs k"
    using d lend k(1) lenb nth emp k(2) by blast
  show "np_argmax [Fin 5, Fin 7, Fin 7, Fin 3] = Inr 1"
    by code_simp
qed

theorem seasonal_buckets_and_first_maximum_witness:
  "2 \<le> length [2, 4 :: real] \<and> (0::int) \<le> 0
   \<and> (\<exists>d bs k.
            remove_trend [2, 4] 0 = Inr (map Fin d)
          \<and> length d = length [2, 4 :: real]
          \<and> is_seasonal [2, 4] 0 = Inr (map Fin bs, k)
          \<and> length bs = 12
          \<and> (\<forall>p<12. bs ! p = bucket_sum d p)
          \<and> (\<forall>p<12. length [2, 4 :: real] \<le> p \<longrightarrow> bs ! p = 0)
          \<and> first_maximum bs k)
   \<and> is_seasonal [2, 4] 0 =
       Inr ([Fin 2, Fin 2, Fin 0, Fin 0, Fin 0, Fin 0, Fin 0, Fin 0, Fin 0, Fin 0, Fin 0, Fin 0], 0)"
proof -
  have h1: "2 \<le> length [2, 4 :: real]" by simp
  have h2: "(0::int) \<le> 0" by simp
  have e: "is_seasonal [2, 4] 0 =
       Inr ([Fin 2, Fin 2, Fin 0, Fin 0, Fin 0, Fin 0, Fin 0, Fin 0, Fin 0, Fin 0, Fin 0, Fin 0], 0)"
    by code_simp
  show ?thesis
    using h1 h2 e seasonal_buckets_and_first_maximum [OF h1 h2] by blast
qed

text \<open>
  C4, as the code has it. A series of fewer than two entries makes nothing fail: the fit
  of the empty series is \<open>(0, 0)\<close>, the fit of the one value \<open>v\<close> is \<open>(0, v)\<close>, and for a
  width \<open>\<ge> 0\<close> the detrended series is the input series and the seasonal aggregator
  returns its twelve buckets and an index.
\<close>

theorem fit_short_series_returns:
  assumes "length ts < 2" and "0 \<le> width"
  shows "perform_least_squares [] = Inr (Fin 0, Fin 0)
       \<and> perform_least_squares [Fin v] = Inr (Fin 0, Fin v)
       \<and> remove_trend ts width = Inr (map Fin ts)
       \<and> (\<exists>bs k. is_seasonal ts width = Inr (map Fin bs, k) \<and> length bs = 12)"
proof -
  have d: "remove_trend ts width = Inr (map Fin ts)"
    by (rule remove_trend_short [OF assms])
  obtain k where "is_seasonal ts width = Inr (map Fin (map (bucket_sum ts) [0..<12]), k)"
    using is_seasonal_value [OF d] by blast
  moreover have "length (map (bucket_sum ts) [0..<12]) = 12" by simp
  ultimately have "\<exists>bs k. is_seasonal ts width = Inr (map Fin bs, k) \<and> length bs = 12"
    by blast
  then show ?thesis
    using d perform_least_squares_empty perform_least_squares_single by simp
qed

theorem fit_short_series_returns_witness:
  "length [7 :: real] < 2 \<and> (0::int) \<le> 3
   \<and> perform_least_squares [] = Inr (Fin 0, Fin 0)
   \<and> perform_least_squares [Fin 9] = Inr (Fin 0, Fin 9)
   \<and> remove_trend [7] 3 = Inr (map Fin [7])
   \<and> (\<exists>bs k. is_seasonal [7] 3 = Inr (map Fin bs, k) \<and> length bs = 12)"
proof -
  have h1: "length [7 :: real] < 2" by simp
  have h2: "(0::int) \<le> 3" by simp
  show ?thesis
    using h1 h2 fit_short_series_returns [OF h1 h2, of 9] by blast
qed

text \<open>
  The specification has the fit, the detrender and the aggregator fail on a series of
  fewer than two entries. On the empty series and on the series of the one value 5 each
  of them returns.
\<close>

theorem fit_short_series_counterexample:
  "perform_least_squares [] = Inr (Fin 0, Fin 0)
   \<and> perform_least_squares [Fin 5] = Inr (Fin 0, Fin 5)
   \<and> remove_trend [5] 0 = Inr [Fin 5]
   \<and> is_seasonal [5] 0 =
       Inr ([Fin 5, Fin 0, Fin 0, Fin 0, Fin 0, Fin 0, Fin 0, Fin 0, Fin 0, Fin 0, Fin 0, Fin 0], 0)"
  by code_simp

text \<open>
  C5, as the code has it. A negative width makes the smoother fail on no series: it
  returns a series of the length of its input, and at width \<open>-1\<close> every entry is NaN,
  the mean of an empty slice.
\<close>

theorem smooth_negative_width_returns:
  assumes "width < 0"
  shows "(\<exists>out. remove_irregularities ts width = Inr out \<and> length out = length ts)
       \<and> remove_irregularities ts (- 1) = Inr (replicate (length ts) NaN)"
  using remove_irregularities_length [of ts width] smooth_minus_one [of ts] by blast

theorem smooth_negative_width_returns_witness:
  "(- 2 :: int) < 0
   \<and> (\<exists>out. remove_irregularities [1, 2, 3, 4, 5] (- 2) = Inr out
          \<and> length out = length [1, 2, 3, 4, 5 :: real])
   \<and> remove_irregularities [1, 2, 3, 4, 5] (- 1) = Inr (replicate (length [1, 2, 3, 4, 5 :: real]) NaN)"
proof -
  have h: "(- 2 :: int) < 0" by simp
  show ?thesis
    using h smooth_negative_width_returns [OF h, of "[1, 2, 3, 4, 5]"] by blast
qed

text \<open>
  The specification has the smoother fail at width \<open>-1\<close>. On the series 1, 2, 3 it returns
  three NaN.
\<close>

theorem smooth_negative_width_counterexample:
  "remove_irregularities [1, 2, 3] (- 1) = Inr [NaN, NaN, NaN]"
  by code_simp




text \<open>
  C7. Smoothing at width 0 is the identity: every window holds the one entry at its
  index, so the output is the input series, entry for entry.
\<close>

theorem smooth_width_zero_identity:
  "remove_irregularities ts 0 = Inr (map Fin ts)"
proof -
  have "map (\<lambda>i. Fin (window_mean ts 0 i)) [0..<length ts] =
        map (\<lambda>i. Fin (ts ! i)) [0..<length ts]"
    by (simp add: window_mean_0)
  also have "\<dots> = map Fin (map (\<lambda>i. ts ! i) [0..<length ts])" by simp
  also have "\<dots> = map Fin ts" by (simp only: map_nth)
  finally show ?thesis using remove_irregularities_window [of 0 ts] by simp
qed

text \<open>
  C8. For a width \<open>\<ge> 0\<close> the smoothed series has the length of the input series, and so
  has the detrended series when the input has at least two entries.
\<close>

theorem smooth_and_detrend_preserve_length:
  assumes "0 \<le> width"
  shows "(\<exists>out. remove_irregularities ts width = Inr out \<and> length out = length ts)
       \<and> (2 \<le> length ts \<longrightarrow> (\<exists>out. remove_trend ts width = Inr out \<and> length out = length ts))"
proof -
  obtain m where d: "remove_trend ts width
      = Inr (map Fin (map (\<lambda>i. ts ! i - m * real i) [0..<length ts]))"
    using remove_trend_finite [OF assms] by blast
  have "length (map Fin (map (\<lambda>i. ts ! i - m * real i) [0..<length ts])) = length ts" by simp
  with d have "\<exists>out. remove_trend ts width = Inr out \<and> length out = length ts" by blast
  then show ?thesis using remove_irregularities_length [of ts width] by blast
qed

theorem smooth_and_detrend_preserve_length_witness:
  "(0::int) \<le> 2 \<and> 2 \<le> length [5, 1, 4 :: real]
   \<and> (\<exists>out. remove_irregularities [5, 1, 4] 2 = Inr out \<and> length out = length [5, 1, 4 :: real])
   \<and> (\<exists>out. remove_trend [5, 1, 4] 2 = Inr out \<and> length out = length [5, 1, 4 :: real])"
proof -
  have h1: "(0::int) \<le> 2" by simp
  have h2: "2 \<le> length [5, 1, 4 :: real]" by simp
  show ?thesis
    using h1 h2 smooth_and_detrend_preserve_length [OF h1, of "[5, 1, 4]"] by blast
qed

text \<open>
  C9. In exact arithmetic the fit of the values \<open>b, b + m, ..., b + (n - 1) m\<close>, for
  \<open>n \<ge> 2\<close>, is the slope \<open>m\<close> and the intercept \<open>b\<close>; the fit of \<open>n\<close> copies of the value
  \<open>c\<close> is the slope 0 and the intercept \<open>c\<close>.
\<close>

theorem fit_exact_on_line:
  assumes "2 \<le> n"
  shows "perform_least_squares (map (\<lambda>i. Fin (b + m * real i)) [0..<n]) = Inr (Fin m, Fin b)
       \<and> perform_least_squares (replicate n (Fin c)) = Inr (Fin 0, Fin c)"
proof -
  have line: "perform_least_squares (map (\<lambda>i. Fin (b' + m' * real i)) [0..<n]) = Inr (Fin m', Fin b')"
    for m' b'
  proof -
    let ?ys = "map (\<lambda>i. b' + m' * real i) [0..<n]"
    have len: "2 \<le> length ?ys" using assms by simp
    have "perform_least_squares (map Fin ?ys) = Inr (Fin (ols_slope ?ys), Fin (ols_intercept ?ys))"
      by (rule perform_least_squares_ols [OF len])
    then show ?thesis using ols_line [OF assms, of b' m'] by (simp add: o_def)
  qed
  have "replicate n (Fin c) = map (\<lambda>i. Fin (c + 0 * real i)) [0..<n]"
    by (simp add: map_replicate_const)
  then show ?thesis using line [of b m] line [of c 0] by simp
qed

theorem fit_exact_on_line_witness:
  "(2::nat) \<le> 3
   \<and> perform_least_squares (map (\<lambda>i. Fin (5 + 2 * real i)) [0..<3]) = Inr (Fin 2, Fin 5)
   \<and> perform_least_squares (replicate 3 (Fin 4)) = Inr (Fin 0, Fin 4)"
proof -
  have h: "(2::nat) \<le> 3" by simp
  show ?thesis
    using h fit_exact_on_line [OF h, of 5 2 4] by blast
qed

text \<open>
  C10. For a width \<open>\<ge> 0\<close> the twelve buckets add up to the sum of the detrended series:
  every index falls in the bucket of its residue modulo 12 and in no other.
\<close>

theorem buckets_sum_to_detrended_sum:
  assumes "0 \<le> width"
  shows "\<exists>d bs k.
            remove_trend ts width = Inr (map Fin d)
          \<and> is_seasonal ts width = Inr (map Fin bs, k)
          \<and> length bs = 12
          \<and> sum_list bs = sum_list d"
proof -
  obtain m where d: "remove_trend ts width
      = Inr (map Fin (map (\<lambda>i. ts ! i - m * real i) [0..<length ts]))"
    using remove_trend_finite [OF assms] by blast
  let ?d = "map (\<lambda>i. ts ! i - m * real i) [0..<length ts]"
  let ?bs = "map (bucket_sum ?d) [0..<12]"
  obtain k where k: "is_seasonal ts width = Inr (map Fin ?bs, k)"
    using is_seasonal_value [OF d] by blast
  have lenb: "length ?bs = 12" by simp
  have "sum_list ?bs = (\<Sum>p<12. bucket_sum ?d p)" by (rule sum_list_upt)
  then have tot: "sum_list ?bs = sum_list ?d" by (simp only: bucket_total)
  show ?thesis using d k lenb tot by blast
qed

theorem buckets_sum_to_detrended_sum_witness:
  "(0::int) \<le> 1
   \<and> (\<exists>d bs k.
            remove_trend [3, 1, 2] 1 = Inr (map Fin d)
          \<and> is_seasonal [3, 1, 2] 1 = Inr (map Fin bs, k)
          \<and> length bs = 12
          \<and> sum_list bs = sum_list d)"
proof -
  have h: "(0::int) \<le> 1" by simp
  show ?thesis
    using h buckets_sum_to_detrended_sum [OF h, of "[3, 1, 2]"] by blast
qed

end
